theory Spec2Isabelle
  imports Complex_Main
begin

section \<open>Two per-key rate limiters\<close>

text \<open>
  The repository holds two classes: \<^verbatim>\<open>SlidingWindowRateLimiter\<close> (task_01.py) and
  \<^verbatim>\<open>ThrottlingRateLimiter\<close> (Task_02.py). Both are embedded by explicit state
  passing: a method takes the object's fields as a record and returns its result
  together with the fields after the call.

  Timestamps are Python floats read from \<^verbatim>\<open>time.time()\<close>. They are modelled as
  \<^typ>\<open>real\<close>: comparisons and differences are exact, rounding is not modelled. The
  clock read at the top of a method is an explicit argument \<open>current_time\<close>, as it
  already is for \<^verbatim>\<open>SlidingWindowRateLimiter.can_send_message\<close>.
  User ids are Python strings; the counters and \<^verbatim>\<open>max_requests\<close> are Python ints.
\<close>

datatype error = IndexError

subsection \<open>task_01.py: the sliding window\<close>

record SlidingWindowRateLimiter =
  window_size :: real
  max_requests :: int
  user_requests :: "string \<rightharpoonup> real list"
  blocked_requests :: int

text \<open>
  \<^verbatim>\<open>__init__\<close> stores its two arguments, an empty dictionary and a zero counter.
  It is given a result type with an error side so that a failing construction could
  be expressed; the source has no \<^verbatim>\<open>raise\<close>, so there is no such branch.
\<close>

definition sw_init :: "real \<Rightarrow> int \<Rightarrow> error + SlidingWindowRateLimiter" where
  "sw_init w n =
     Inr \<lparr>window_size = w, max_requests = n, user_requests = Map.empty, blocked_requests = 0\<rparr>"

text \<open>
  The \<^verbatim>\<open>while\<close> loop of \<^verbatim>\<open>_cleanup_window\<close>: pop from the left as long as
  the deque is non-empty and its first element is \<open>\<le> current_time - window_size\<close>.
\<close>

fun popleft_expired :: "real \<Rightarrow> real list \<Rightarrow> real list" where
  "popleft_expired bound [] = []"
| "popleft_expired bound (t # ts) =
     (if t \<le> bound then popleft_expired bound ts else t # ts)"

definition cleanup_window ::
  "SlidingWindowRateLimiter \<Rightarrow> string \<Rightarrow> real \<Rightarrow> SlidingWindowRateLimiter" where
  "cleanup_window rl user_id current_time =
     (case user_requests rl user_id of
        None \<Rightarrow> rl
      | Some q \<Rightarrow>
          (let q' = popleft_expired (current_time - window_size rl) q in
           if q' = []
           then rl\<lparr>user_requests := (user_requests rl)(user_id := None)\<rparr>
           else rl\<lparr>user_requests := (user_requests rl)(user_id \<mapsto> q')\<rparr>))"

definition sw_can_send_message ::
  "SlidingWindowRateLimiter \<Rightarrow> string \<Rightarrow> real \<Rightarrow> bool \<times> SlidingWindowRateLimiter" where
  "sw_can_send_message rl user_id current_time =
     (let rl1 = cleanup_window rl user_id current_time in
      (case user_requests rl1 user_id of
         None \<Rightarrow> True
       | Some q \<Rightarrow> int (length q) < max_requests rl1,
       rl1))"

definition sw_record_message ::
  "SlidingWindowRateLimiter \<Rightarrow> string \<Rightarrow> real \<Rightarrow> bool \<times> SlidingWindowRateLimiter" where
  "sw_record_message rl user_id current_time =
     (case sw_can_send_message rl user_id current_time of
        (ok, rl1) \<Rightarrow>
          if ok
          then (True,
                rl1\<lparr>user_requests := (user_requests rl1)
                   (user_id \<mapsto>
                      (case user_requests rl1 user_id of None \<Rightarrow> [] | Some q \<Rightarrow> q)
                        @ [current_time])\<rparr>)
          else (False, rl1\<lparr>blocked_requests := blocked_requests rl1 + 1\<rparr>))"

text \<open>
  \<^verbatim>\<open>time_until_next_allowed\<close> reads element 0 of the deque; on an empty deque
  Python raises \<^verbatim>\<open>IndexError\<close>, which is the \<open>Inl\<close> branch.
\<close>

definition sw_time_until_next_allowed ::
  "SlidingWindowRateLimiter \<Rightarrow> string \<Rightarrow> real \<Rightarrow> error + (real \<times> SlidingWindowRateLimiter)" where
  "sw_time_until_next_allowed rl user_id current_time =
     (let rl1 = cleanup_window rl user_id current_time in
      case user_requests rl1 user_id of
        None \<Rightarrow> Inr (0, rl1)
      | Some q \<Rightarrow>
          if int (length q) < max_requests rl1 then Inr (0, rl1)
          else (case q of
                  [] \<Rightarrow> Inl IndexError
                | t # _ \<Rightarrow> Inr (max 0 (t + window_size rl1 - current_time), rl1)))"

subsection \<open>Task_02.py: the minimum interval\<close>

record ThrottlingRateLimiter =
  min_interval :: real
  user_last_message_time :: "string \<rightharpoonup> real"

definition th_init :: "real \<Rightarrow> error + ThrottlingRateLimiter" where
  "th_init m = Inr \<lparr>min_interval = m, user_last_message_time = Map.empty\<rparr>"

text \<open>\<^verbatim>\<open>self.user_last_message_time.get(user_id, 0)\<close>\<close>

definition last_message_time :: "ThrottlingRateLimiter \<Rightarrow> string \<Rightarrow> real" where
  "last_message_time rl user_id =
     (case user_last_message_time rl user_id of None \<Rightarrow> 0 | Some t \<Rightarrow> t)"

definition th_can_send_message ::
  "ThrottlingRateLimiter \<Rightarrow> string \<Rightarrow> real \<Rightarrow> bool \<times> ThrottlingRateLimiter" where
  "th_can_send_message rl user_id current_time =
     (current_time - last_message_time rl user_id \<ge> min_interval rl, rl)"

definition th_record_message ::
  "ThrottlingRateLimiter \<Rightarrow> string \<Rightarrow> real \<Rightarrow> bool \<times> ThrottlingRateLimiter" where
  "th_record_message rl user_id current_time =
     (if current_time - last_message_time rl user_id \<ge> min_interval rl
      then (True,
            rl\<lparr>user_last_message_time :=
                  (user_last_message_time rl)(user_id \<mapsto> current_time)\<rparr>)
      else (False, rl))"

definition th_time_until_next_allowed ::
  "ThrottlingRateLimiter \<Rightarrow> string \<Rightarrow> real \<Rightarrow> real \<times> ThrottlingRateLimiter" where
  "th_time_until_next_allowed rl user_id current_time =
     (let wait_time = min_interval rl - (current_time - last_message_time rl user_id)
      in (max 0 wait_time, rl))"

subsection \<open>Scripted call sequences\<close>

text \<open>
  A script is a list of method calls, each with the key and the time the clock
  shows when the call is made. Running a script threads the limiter through the
  calls and logs every call with what it returned; an exception ends the run.
\<close>

datatype op = CanSend string real | Record string real | TimeUntil string real

datatype outcome = Allowed bool | Wait real

fun op_time :: "op \<Rightarrow> real" where
  "op_time (CanSend k t) = t"
| "op_time (Record k t) = t"
| "op_time (TimeUntil k t) = t"

fun op_key :: "op \<Rightarrow> string" where
  "op_key (CanSend k t) = k"
| "op_key (Record k t) = k"
| "op_key (TimeUntil k t) = k"

fun is_query :: "op \<Rightarrow> bool" where
  "is_query (Record k t) = False"
| "is_query _ = True"

fun sw_step ::
  "SlidingWindowRateLimiter \<Rightarrow> op \<Rightarrow> error + (outcome \<times> SlidingWindowRateLimiter)" where
  "sw_step rl (CanSend k t) =
     (case sw_can_send_message rl k t of (b, rl') \<Rightarrow> Inr (Allowed b, rl'))"
| "sw_step rl (Record k t) =
     (case sw_record_message rl k t of (b, rl') \<Rightarrow> Inr (Allowed b, rl'))"
| "sw_step rl (TimeUntil k t) =
     (case sw_time_until_next_allowed rl k t of
        Inl e \<Rightarrow> Inl e
      | Inr (w, rl') \<Rightarrow> Inr (Wait w, rl'))"

fun sw_run ::
  "(op \<times> outcome) list \<times> SlidingWindowRateLimiter \<Rightarrow> op list
     \<Rightarrow> error + ((op \<times> outcome) list \<times> SlidingWindowRateLimiter)" where
  "sw_run (lg, rl) [] = Inr (lg, rl)"
| "sw_run (lg, rl) (c # cs) =
     (case sw_step rl c of
        Inl e \<Rightarrow> Inl e
      | Inr (out, rl') \<Rightarrow> sw_run (lg @ [(c, out)], rl') cs)"

fun th_step :: "ThrottlingRateLimiter \<Rightarrow> op \<Rightarrow> outcome \<times> ThrottlingRateLimiter" where
  "th_step rl (CanSend k t) =
     (case th_can_send_message rl k t of (b, rl') \<Rightarrow> (Allowed b, rl'))"
| "th_step rl (Record k t) =
     (case th_record_message rl k t of (b, rl') \<Rightarrow> (Allowed b, rl'))"
| "th_step rl (TimeUntil k t) =
     (case th_time_until_next_allowed rl k t of (w, rl') \<Rightarrow> (Wait w, rl'))"

fun th_run :: "ThrottlingRateLimiter \<Rightarrow> op list \<Rightarrow> ThrottlingRateLimiter" where
  "th_run rl [] = rl"
| "th_run rl (c # cs) = th_run (snd (th_step rl c)) cs"

text \<open>
  The times at which \<^verbatim>\<open>record_message\<close> returned \<open>True\<close> for a key, in call
  order, and the number of calls of \<^verbatim>\<open>record_message\<close> that returned \<open>False\<close>.
\<close>

definition accepted :: "string \<Rightarrow> (op \<times> outcome) list \<Rightarrow> real list" where
  "accepted k lg =
     map (\<lambda>(c, out). op_time c)
       (filter (\<lambda>(c, out). \<not> is_query c \<and> op_key c = k \<and> out = Allowed True) lg)"

definition rejected :: "(op \<times> outcome) list \<Rightarrow> nat" where
  "rejected lg = length (filter (\<lambda>(c, out). \<not> is_query c \<and> out = Allowed False) lg)"

text \<open>The trailing window of length \<open>w\<close> that ends at \<open>t\<close>; a timestamp exactly
  \<open>w\<close> old has left it.\<close>

definition in_window :: "real \<Rightarrow> real \<Rightarrow> real \<Rightarrow> bool" where
  "in_window w t s \<longleftrightarrow> t - w < s \<and> s \<le> t"

text \<open>The value \<^verbatim>\<open>time_until_next_allowed\<close> returns at time \<open>s\<close> for a key once
  the calls \<open>cs\<close> have been made; \<open>None\<close> if a call raised.\<close>

definition sw_wait_after ::
  "SlidingWindowRateLimiter \<Rightarrow> op list \<Rightarrow> string \<Rightarrow> real \<Rightarrow> real option" where
  "sw_wait_after rl cs k s =
     (case sw_run ([], rl) cs of
        Inl e \<Rightarrow> None
      | Inr (lg, rl') \<Rightarrow>
          (case sw_time_until_next_allowed rl' k s of
             Inl e \<Rightarrow> None
           | Inr (w, rl'') \<Rightarrow> Some w))"

definition th_wait_after ::
  "ThrottlingRateLimiter \<Rightarrow> op list \<Rightarrow> string \<Rightarrow> real \<Rightarrow> real" where
  "th_wait_after rl cs k s = fst (th_time_until_next_allowed (th_run rl cs) k s)"

text \<open>The deque of a key, empty when the key is not in the dictionary.\<close>

definition requests_of :: "SlidingWindowRateLimiter \<Rightarrow> string \<Rightarrow> real list" where
  "requests_of rl k = (case user_requests rl k of None \<Rightarrow> [] | Some q \<Rightarrow> q)"

text \<open>
  The state invariant at clock reading \<open>c\<close>: every deque in the dictionary is
  non-empty, ascending, and holds no timestamp later than \<open>c\<close>.
\<close>

definition sw_inv :: "real \<Rightarrow> SlidingWindowRateLimiter \<Rightarrow> bool" where
  "sw_inv c rl \<longleftrightarrow>
     (\<forall>k q. user_requests rl k = Some q \<longrightarrow> q \<noteq> [] \<and> sorted q \<and> (\<forall>x\<in>set q. x \<le> c))"

text \<open>
  What \<^verbatim>\<open>can_send_message\<close> decides, read off the deque before the call: after
  the expired head has been popped, the deque is empty (the key is deleted) or shorter
  than \<^verbatim>\<open>max_requests\<close>. Lemma \<open>can_send_eq\<close> below shows that this is the
  value the method returns.
\<close>

definition admits :: "SlidingWindowRateLimiter \<Rightarrow> string \<Rightarrow> real \<Rightarrow> bool" where
  "admits rl k t \<longleftrightarrow>
     (let q = popleft_expired (t - window_size rl) (requests_of rl k)
      in q = [] \<or> int (length q) < max_requests rl)"

text \<open>
  The link between a log and the state it led to, at clock reading \<open>c\<close>: for every
  key the accepted calls younger than the window are exactly the deque entries younger
  than the window, no accepted call is later than \<open>c\<close>, and no trailing window holds
  more accepted calls than \<open>max 1 max_requests\<close>.
\<close>

definition sw_hist :: "real \<Rightarrow> (op \<times> outcome) list \<Rightarrow> SlidingWindowRateLimiter \<Rightarrow> bool" where
  "sw_hist c lg rl \<longleftrightarrow>
     (\<forall>k. filter (\<lambda>s. c - window_size rl < s) (accepted k lg) =
          filter (\<lambda>s. c - window_size rl < s) (requests_of rl k)) \<and>
     (\<forall>k. \<forall>s\<in>set (accepted k lg). s \<le> c) \<and>
     (\<forall>k t. int (length (filter (in_window (window_size rl) t) (accepted k lg)))
              \<le> max 1 (max_requests rl))"

text \<open>
  \<open>m\<close> calls of \<^verbatim>\<open>can_send_message\<close> in a row for one key at one clock reading,
  the answers dropped.
\<close>

fun repeat_can_send :: "nat \<Rightarrow> SlidingWindowRateLimiter \<Rightarrow> string \<Rightarrow> real \<Rightarrow> SlidingWindowRateLimiter" where
  "repeat_can_send 0 rl k t = rl"
| "repeat_can_send (Suc m) rl k t = repeat_can_send m (snd (sw_can_send_message rl k t)) k t"

text \<open>
  A script of calls other than \<^verbatim>\<open>record_message\<close>, none made later than \<open>s\<close>.
\<close>

definition queries_upto :: "real \<Rightarrow> op list \<Rightarrow> bool" where
  "queries_upto s cs = list_all (\<lambda>c. is_query c \<and> op_time c \<le> s) cs"

text \<open>
  Example states: a sliding-window limiter with window 10 and limit 1 when fresh, after
  \<^verbatim>\<open>record_message("1")\<close> was accepted at time 0, and after a second call was then
  rejected; an interval limiter with interval 10 whose key "A" last sent at time 100.
\<close>

abbreviation sw_fresh :: SlidingWindowRateLimiter where
  "sw_fresh \<equiv>
     \<lparr>window_size = 10, max_requests = 1, user_requests = Map.empty, blocked_requests = 0\<rparr>"

abbreviation sw_sent :: SlidingWindowRateLimiter where
  "sw_sent \<equiv>
     \<lparr>window_size = 10, max_requests = 1, user_requests = [''1'' \<mapsto> [0]], blocked_requests = 0\<rparr>"

abbreviation sw_blocked :: SlidingWindowRateLimiter where
  "sw_blocked \<equiv>
     \<lparr>window_size = 10, max_requests = 1, user_requests = [''1'' \<mapsto> [0]], blocked_requests = 1\<rparr>"

abbreviation th_sent :: ThrottlingRateLimiter where
  "th_sent \<equiv> \<lparr>min_interval = 10, user_last_message_time = [''A'' \<mapsto> 100]\<rparr>"

section \<open>Basic facts\<close>

subsection \<open>The cleanup loop\<close>

lemma popleft_expired_dropWhile: "popleft_expired b q = dropWhile (\<lambda>t. t \<le> b) q"
  by (induction q) auto

lemma set_popleft_expired: "set (popleft_expired b q) \<subseteq> set q"
  by (induction q) auto

lemma sorted_popleft_expired: "sorted q \<Longrightarrow> sorted (popleft_expired b q)"
  by (induction q) auto

lemma length_popleft_expired: "length (popleft_expired b q) \<le> length q"
  by (induction q) auto

lemma popleft_expired_sorted_filter:
  "sorted q \<Longrightarrow> popleft_expired b q = filter (\<lambda>x. b < x) q"
proof (induction q)
  case Nil
  then show ?case by simp
next
  case (Cons a q)
  show ?case
  proof (cases "a \<le> b")
    case True
    with Cons show ?thesis by simp
  next
    case False
    with Cons.prems have "\<forall>x\<in>set q. b < x" by auto
    then have "filter (\<lambda>x. b < x) q = q" by simp
    with False show ?thesis by simp
  qed
qed

lemma filter_popleft_expired:
  "b \<le> b' \<Longrightarrow> filter (\<lambda>x. b' < x) (popleft_expired b q) = filter (\<lambda>x. b' < x) q"
  by (induction q) auto

lemma popleft_expired_twice:
  "b \<le> b' \<Longrightarrow> popleft_expired b' (popleft_expired b q) = popleft_expired b' q"
  by (induction q) auto

lemma popleft_expired_head:
  "popleft_expired b q = x # xs \<Longrightarrow> b < x"
  by (induction q) (auto split: if_splits)

lemma popleft_expired_keep:
  "popleft_expired b q = x # xs \<Longrightarrow> b \<le> b' \<Longrightarrow> b' < x \<Longrightarrow> popleft_expired b' q = x # xs"
  by (induction q) (auto split: if_splits)

lemma popleft_expired_idem: "popleft_expired b (popleft_expired b q) = popleft_expired b q"
  by (simp add: popleft_expired_twice)

subsection \<open>The methods in terms of the deque\<close>

lemma cleanup_lookup:
  "user_requests (cleanup_window rl k t) k' =
     (if k' = k then
        (case user_requests rl k of None \<Rightarrow> None
         | Some q \<Rightarrow> if popleft_expired (t - window_size rl) q = [] then None
                     else Some (popleft_expired (t - window_size rl) q))
      else user_requests rl k')"
  by (auto simp: cleanup_window_def Let_def split: option.splits)

lemma cleanup_fields:
  "window_size (cleanup_window rl k t) = window_size rl"
  "max_requests (cleanup_window rl k t) = max_requests rl"
  "blocked_requests (cleanup_window rl k t) = blocked_requests rl"
  by (auto simp: cleanup_window_def Let_def split: option.splits)

lemma cleanup_nonempty:
  "user_requests (cleanup_window rl k t) k = Some q \<Longrightarrow> q \<noteq> []"
  by (auto simp: cleanup_lookup split: option.splits if_splits)

lemma requests_of_cleanup:
  "requests_of (cleanup_window rl k t) k' =
     (if k' = k then popleft_expired (t - window_size rl) (requests_of rl k)
      else requests_of rl k')"
  by (auto simp: requests_of_def cleanup_lookup split: option.splits)

lemma absent_after_cleanup:
  "user_requests (cleanup_window rl k t) k = None \<longleftrightarrow>
     popleft_expired (t - window_size rl) (requests_of rl k) = []"
  by (auto simp: requests_of_def cleanup_lookup split: option.splits)

lemma lookup_after_cleanup:
  "user_requests (cleanup_window rl k t) k = Some q \<longleftrightarrow>
     q \<noteq> [] \<and> popleft_expired (t - window_size rl) (requests_of rl k) = q"
  by (auto simp: requests_of_def cleanup_lookup split: option.splits)

lemma can_send_eq:
  "sw_can_send_message rl k t = (admits rl k t, cleanup_window rl k t)"
  by (auto simp: sw_can_send_message_def admits_def Let_def cleanup_fields lookup_after_cleanup
       absent_after_cleanup split: option.splits)

lemma record_eq:
  "sw_record_message rl k t =
     (if admits rl k t
      then (True, (cleanup_window rl k t)\<lparr>user_requests :=
              (user_requests (cleanup_window rl k t))
                (k \<mapsto> popleft_expired (t - window_size rl) (requests_of rl k) @ [t])\<rparr>)
      else (False, (cleanup_window rl k t)\<lparr>blocked_requests := blocked_requests rl + 1\<rparr>))"
  by (auto simp: sw_record_message_def can_send_eq cleanup_fields lookup_after_cleanup
       absent_after_cleanup split: option.splits)

lemma time_until_eq:
  "sw_time_until_next_allowed rl k t =
     Inr (if admits rl k t then 0
          else max 0 (hd (popleft_expired (t - window_size rl) (requests_of rl k))
                        + window_size rl - t),
          cleanup_window rl k t)"
  by (auto simp: sw_time_until_next_allowed_def admits_def Let_def cleanup_fields lookup_after_cleanup
       absent_after_cleanup split: option.splits list.splits)

lemma requests_of_upd:
  "requests_of (rl\<lparr>user_requests := (user_requests rl)(k \<mapsto> q)\<rparr>) k' =
     (if k' = k then q else requests_of rl k')"
  by (simp add: requests_of_def)

lemma requests_of_blocked:
  "requests_of (rl\<lparr>blocked_requests := n\<rparr>) k = requests_of rl k"
  by (simp add: requests_of_def)

lemma cleanup_other: "k' \<noteq> k \<Longrightarrow> user_requests (cleanup_window rl k t) k' = user_requests rl k'"
  by (simp add: cleanup_lookup)

lemma sw_step_total: "\<exists>out rl'. sw_step rl c = Inr (out, rl')"
  by (cases c) (simp_all add: can_send_eq record_eq time_until_eq)

lemma sw_step_effect:
  assumes "sw_step rl c = Inr (out, rl')"
  shows "window_size rl' = window_size rl"
    and "max_requests rl' = max_requests rl"
    and "k' \<noteq> op_key c \<Longrightarrow> user_requests rl' k' = user_requests rl k'"
    and "requests_of rl' (op_key c) =
           popleft_expired (op_time c - window_size rl) (requests_of rl (op_key c))
             @ (if \<not> is_query c \<and> out = Allowed True then [op_time c] else [])"
    and "\<not> is_query c \<Longrightarrow> out = Allowed (admits rl (op_key c) (op_time c))"
    and "blocked_requests rl' =
           blocked_requests rl + (if \<not> is_query c \<and> out = Allowed False then 1 else 0)"
proof -
  show "window_size rl' = window_size rl"
    using assms by (cases c) (auto simp: can_send_eq record_eq time_until_eq cleanup_fields split: if_splits)
  show "max_requests rl' = max_requests rl"
    using assms by (cases c) (auto simp: can_send_eq record_eq time_until_eq cleanup_fields split: if_splits)
  show "k' \<noteq> op_key c \<Longrightarrow> user_requests rl' k' = user_requests rl k'"
    using assms by (cases c) (auto simp: can_send_eq record_eq time_until_eq cleanup_other split: if_splits)
  show "requests_of rl' (op_key c) =
           popleft_expired (op_time c - window_size rl) (requests_of rl (op_key c))
             @ (if \<not> is_query c \<and> out = Allowed True then [op_time c] else [])"
    using assms by (cases c) (auto simp: can_send_eq record_eq time_until_eq requests_of_cleanup
        requests_of_upd requests_of_blocked split: if_splits)
  show "\<not> is_query c \<Longrightarrow> out = Allowed (admits rl (op_key c) (op_time c))"
    using assms by (cases c) (auto simp: record_eq split: if_splits)
  show "blocked_requests rl' =
           blocked_requests rl + (if \<not> is_query c \<and> out = Allowed False then 1 else 0)"
    using assms by (cases c) (auto simp: can_send_eq record_eq time_until_eq cleanup_fields split: if_splits)
qed

lemma sw_step_present:
  assumes "sw_step rl c = Inr (out, rl')"
  shows "user_requests rl' (op_key c) = Some q \<longleftrightarrow> q \<noteq> [] \<and> requests_of rl' (op_key c) = q"
  using assms
  by (cases c) (auto simp: can_send_eq record_eq time_until_eq lookup_after_cleanup
        requests_of_cleanup requests_of_upd requests_of_blocked split: if_splits)

subsection \<open>The state invariant\<close>

lemma sw_inv_requests_of:
  assumes "sw_inv c rl"
  shows "sorted (requests_of rl k)" and "\<forall>x\<in>set (requests_of rl k). x \<le> c"
  using assms by (cases "user_requests rl k"; fastforce simp: sw_inv_def requests_of_def)+

lemma sw_inv_cleanup_window:
  assumes "sw_inv c rl" and "c \<le> t"
  shows "sw_inv t (cleanup_window rl k t)"
  unfolding sw_inv_def
proof (intro allI impI)
  fix k' q
  assume q: "user_requests (cleanup_window rl k t) k' = Some q"
  show "q \<noteq> [] \<and> sorted q \<and> (\<forall>x\<in>set q. x \<le> t)"
  proof (cases "k' = k")
    case True
    with q have ne: "q \<noteq> []"
      and eq: "q = popleft_expired (t - window_size rl) (requests_of rl k)"
      by (simp_all add: lookup_after_cleanup)
    have "sorted q"
      unfolding eq using sw_inv_requests_of(1) [OF assms(1)] by (rule sorted_popleft_expired)
    moreover have "\<forall>x\<in>set q. x \<le> t"
      using sw_inv_requests_of(2) [OF assms(1), of k] set_popleft_expired [of "t - window_size rl" "requests_of rl k"]
        assms(2) unfolding eq by fastforce
    ultimately show ?thesis using ne by simp
  next
    case False
    with q have "user_requests rl k' = Some q" by (simp add: cleanup_other)
    with assms show ?thesis by (fastforce simp: sw_inv_def)
  qed
qed

lemma cleanup_window_bounds:
  assumes "sw_inv c rl" and "c \<le> t" and "user_requests (cleanup_window rl k t) k = Some q"
    and "x \<in> set q"
  shows "t - window_size rl < x" and "x \<le> t"
proof -
  from assms(3) have eq: "q = popleft_expired (t - window_size rl) (requests_of rl k)"
    by (simp add: lookup_after_cleanup)
  have "q = filter (\<lambda>x. t - window_size rl < x) (requests_of rl k)"
    unfolding eq using sw_inv_requests_of(1) [OF assms(1)] by (rule popleft_expired_sorted_filter)
  with assms(4) show "t - window_size rl < x" by simp
  from sw_inv_cleanup_window [OF assms(1,2)] assms(3,4) show "x \<le> t"
    by (auto simp: sw_inv_def)
qed

lemma sw_inv_blocked: "sw_inv c (rl\<lparr>blocked_requests := n\<rparr>) = sw_inv c rl"
  by (simp add: sw_inv_def)

lemma sw_inv_append:
  assumes "sw_inv t rl"
  shows "sw_inv t (rl\<lparr>user_requests := (user_requests rl)(k \<mapsto> requests_of rl k @ [t])\<rparr>)"
proof -
  have "sorted (requests_of rl k @ [t])"
    using sw_inv_requests_of [OF assms, of k] by (simp add: sorted_append)
  moreover have "\<forall>x\<in>set (requests_of rl k @ [t]). x \<le> t"
    using sw_inv_requests_of(2) [OF assms, of k] by simp
  ultimately show ?thesis using assms by (simp add: sw_inv_def)
qed

lemma record_eq':
  "sw_record_message rl k t =
     (if admits rl k t
      then (True, (cleanup_window rl k t)\<lparr>user_requests :=
              (user_requests (cleanup_window rl k t))
                (k \<mapsto> requests_of (cleanup_window rl k t) k @ [t])\<rparr>)
      else (False, (cleanup_window rl k t)\<lparr>blocked_requests := blocked_requests rl + 1\<rparr>))"
  by (simp add: record_eq requests_of_cleanup)

lemma sw_inv_step:
  assumes "sw_inv c rl" and "c \<le> op_time a" and "sw_step rl a = Inr (out, rl')"
  shows "sw_inv (op_time a) rl'"
proof (cases a)
  case (CanSend k t)
  with assms show ?thesis
    by (auto simp: can_send_eq intro: sw_inv_cleanup_window)
next
  case (Record k t)
  with assms(1,2) have "sw_inv t (cleanup_window rl k t)"
    by (auto intro: sw_inv_cleanup_window)
  with Record assms(3) show ?thesis
    by (auto simp: record_eq' sw_inv_blocked sw_inv_append split: if_splits)
next
  case (TimeUntil k t)
  with assms show ?thesis
    by (auto simp: time_until_eq intro: sw_inv_cleanup_window)
qed

lemma sw_inv_init: "sw_init w n = Inr rl \<Longrightarrow> sw_inv c rl"
  by (auto simp: sw_init_def sw_inv_def)

subsection \<open>Logs and states\<close>

lemma accepted_snoc:
  "accepted k (lg @ [(a, out)]) =
     accepted k lg @ (if \<not> is_query a \<and> op_key a = k \<and> out = Allowed True then [op_time a] else [])"
  by (simp add: accepted_def)

lemma rejected_snoc:
  "rejected (lg @ [(a, out)]) =
     rejected lg + (if \<not> is_query a \<and> out = Allowed False then 1 else 0)"
  by (simp add: rejected_def)

lemma filter_weaken:
  assumes "filter Q xs = filter Q ys" and "\<And>x. P x \<Longrightarrow> Q x"
  shows "filter P xs = filter P ys"
proof -
  have *: "filter P zs = filter P (filter Q zs)" for zs :: "'a list"
    using assms(2) by (induction zs) auto
  have "filter P xs = filter P (filter Q xs)" by (rule *)
  also have "\<dots> = filter P (filter Q ys)" by (simp only: assms(1))
  also have "\<dots> = filter P ys" by (rule * [symmetric])
  finally show ?thesis .
qed

lemma length_filter_weaken:
  assumes "\<And>x. x \<in> set xs \<Longrightarrow> P x \<Longrightarrow> Q x"
  shows "length (filter P xs) \<le> length (filter Q xs)"
  using assms by (induction xs) auto

lemma requests_of_other:
  "user_requests rl' k = user_requests rl k \<Longrightarrow> requests_of rl' k = requests_of rl k"
  by (simp add: requests_of_def)


lemma sw_hist_step:
  assumes H: "sw_hist c lg rl" and le: "c \<le> op_time a" and st: "sw_step rl a = Inr (out, rl')"
  shows "sw_hist (op_time a) (lg @ [(a, out)]) rl'"
proof -
  let ?W = "window_size rl"
  let ?now = "op_time a"
  let ?P = "\<lambda>s. ?now - ?W < s"
  define new where "new = (\<not> is_query a \<and> out = Allowed True)"
  define q' where "q' = popleft_expired (?now - ?W) (requests_of rl (op_key a))"
  note eff = sw_step_effect [OF st]
  from H have H1: "\<And>k. filter (\<lambda>s. c - ?W < s) (accepted k lg) = filter (\<lambda>s. c - ?W < s) (requests_of rl k)"
    and H2: "\<And>k s. s \<in> set (accepted k lg) \<Longrightarrow> s \<le> c"
    and H3: "\<And>k t. int (length (filter (in_window ?W t) (accepted k lg))) \<le> max 1 (max_requests rl)"
    by (simp_all add: sw_hist_def)
  have F: "filter ?P (accepted k lg) = filter ?P (requests_of rl k)" for k
    by (rule filter_weaken [OF H1 [of k]]) (use le in simp)
  have req: "requests_of rl' (op_key a) = q' @ (if new then [?now] else [])"
    using eff(4) by (simp add: q'_def new_def)
  have acc: "accepted k (lg @ [(a, out)]) = accepted k lg @ (if new \<and> op_key a = k then [?now] else [])" for k
    by (simp add: accepted_snoc new_def)
  have Fq: "filter ?P (accepted (op_key a) lg) = filter ?P q'"
    using F [of "op_key a"] filter_popleft_expired [of "?now - ?W" "?now - ?W" "requests_of rl (op_key a)"]
    by (simp add: q'_def)
  have P1a: "filter ?P (accepted (op_key a) (lg @ [(a, out)])) = filter ?P (requests_of rl' (op_key a))"
    unfolding acc req using Fq by simp
  have P1: "filter ?P (accepted k (lg @ [(a, out)])) = filter ?P (requests_of rl' k)" for k
  proof (cases "k = op_key a")
    case True
    then show ?thesis using P1a by simp
  next
    case False
    then have "requests_of rl' k = requests_of rl k"
      by (intro requests_of_other eff(3))
    moreover from False have "accepted k (lg @ [(a, out)]) = accepted k lg"
      by (auto simp: acc)
    ultimately show ?thesis using F [of k] by simp
  qed
  have P2: "s \<le> ?now" if "s \<in> set (accepted k (lg @ [(a, out)]))" for k s
  proof (cases "s \<in> set (accepted k lg)")
    case True
    with H2 [of s k] le show ?thesis by simp
  next
    case False
    with that have "s = ?now" by (simp add: acc split: if_splits)
    then show ?thesis by simp
  qed
  have P3: "int (length (filter (in_window ?W t) (accepted k (lg @ [(a, out)])))) \<le> max 1 (max_requests rl)" for k t
  proof (cases "new \<and> op_key a = k \<and> in_window ?W t ?now")
    case False
    then have "filter (in_window ?W t) (accepted k (lg @ [(a, out)])) = filter (in_window ?W t) (accepted k lg)"
      unfolding acc by auto
    with H3 [of t k] show ?thesis by simp
  next
    case True
    then have k: "op_key a = k" and inw: "t - ?W < ?now" "?now \<le> t" and nw: new
      by (simp_all add: in_window_def)
    from nw have "out = Allowed (admits rl (op_key a) ?now)"
      using eff(5) by (simp add: new_def)
    with nw have adm: "q' = [] \<or> int (length q') < max_requests rl"
      by (simp add: new_def admits_def Let_def q'_def)
    have "length (filter (in_window ?W t) (accepted k lg)) \<le> length (filter ?P (accepted k lg))"
      by (rule length_filter_weaken) (use inw in \<open>simp add: in_window_def\<close>)
    also have "\<dots> = length (filter ?P q')"
      using Fq by (simp add: k)
    also have "\<dots> \<le> length q'" by simp
    finally have *: "length (filter (in_window ?W t) (accepted k lg)) \<le> length q'" .
    have "filter (in_window ?W t) (accepted k (lg @ [(a, out)])) =
        filter (in_window ?W t) (accepted k lg) @ [?now]"
      unfolding acc using True by simp
    then have "length (filter (in_window ?W t) (accepted k (lg @ [(a, out)]))) =
        Suc (length (filter (in_window ?W t) (accepted k lg)))"
      by simp
    with * adm show ?thesis by (cases "q' = []") simp_all
  qed
  show ?thesis
    unfolding sw_hist_def eff(1) eff(2)
  proof (intro conjI allI ballI)
    fix k show "filter ?P (accepted k (lg @ [(a, out)])) = filter ?P (requests_of rl' k)"
      by (rule P1)
  next
    fix k s assume "s \<in> set (accepted k (lg @ [(a, out)]))"
    then show "s \<le> ?now" by (rule P2)
  next
    fix k t show "int (length (filter (in_window ?W t) (accepted k (lg @ [(a, out)])))) \<le> max 1 (max_requests rl)"
      by (rule P3)
  qed
qed

subsection \<open>Running a script\<close>

lemma sw_run_total: "\<exists>lg' rl'. sw_run (lg, rl) cs = Inr (lg', rl')"
proof (induction cs arbitrary: lg rl)
  case Nil
  show ?case by simp
next
  case (Cons a cs)
  obtain out rl1 where st: "sw_step rl a = Inr (out, rl1)"
    using sw_step_total by blast
  from Cons [of "lg @ [(a, out)]" rl1] st show ?case by simp
qed

lemma sw_run_Cons:
  "sw_step rl a = Inr (out, rl1) \<Longrightarrow>
     sw_run (lg, rl) (a # cs) = sw_run (lg @ [(a, out)], rl1) cs"
  by simp

lemma sw_run_calls:
  "sw_run (lg, rl) cs = Inr (lg', rl') \<Longrightarrow> map fst lg' = map fst lg @ cs"
proof (induction cs arbitrary: lg rl)
  case Nil
  then show ?case by simp
next
  case (Cons a cs)
  obtain out rl1 where st: "sw_step rl a = Inr (out, rl1)"
    using sw_step_total by blast
  with Cons.prems have "sw_run (lg @ [(a, out)], rl1) cs = Inr (lg', rl')" by simp
  from Cons.IH [OF this] show ?case by simp
qed

lemma sw_run_config:
  "sw_run (lg, rl) cs = Inr (lg', rl') \<Longrightarrow>
     window_size rl' = window_size rl \<and> max_requests rl' = max_requests rl"
proof (induction cs arbitrary: lg rl)
  case Nil
  then show ?case by simp
next
  case (Cons a cs)
  obtain out rl1 where st: "sw_step rl a = Inr (out, rl1)"
    using sw_step_total by blast
  with Cons.prems have "sw_run (lg @ [(a, out)], rl1) cs = Inr (lg', rl')" by simp
  from Cons.IH [OF this] sw_step_effect(1,2) [OF st] show ?case by simp
qed

lemma sw_run_hist:
  assumes "sw_hist c lg rl" and "sorted (c # map op_time cs)"
    and "sw_run (lg, rl) cs = Inr (lg', rl')"
  shows "sw_hist (last (c # map op_time cs)) lg' rl'"
  using assms
proof (induction cs arbitrary: c lg rl)
  case Nil
  then show ?case by simp
next
  case (Cons a cs)
  obtain out rl1 where st: "sw_step rl a = Inr (out, rl1)"
    using sw_step_total by blast
  with Cons.prems(3) have run: "sw_run (lg @ [(a, out)], rl1) cs = Inr (lg', rl')" by simp
  from Cons.prems(2) have le: "c \<le> op_time a" and srt: "sorted (op_time a # map op_time cs)"
    by simp_all
  have "sw_hist (op_time a) (lg @ [(a, out)]) rl1"
    using Cons.prems(1) le st by (rule sw_hist_step)
  from Cons.IH [OF this srt run] show ?case by simp
qed

lemma sw_run_inv:
  assumes "sw_inv c rl" and "sorted (c # map op_time cs)"
    and "sw_run (lg, rl) cs = Inr (lg', rl')"
  shows "sw_inv (last (c # map op_time cs)) rl'"
  using assms
proof (induction cs arbitrary: c lg rl)
  case Nil
  then show ?case by simp
next
  case (Cons a cs)
  obtain out rl1 where st: "sw_step rl a = Inr (out, rl1)"
    using sw_step_total by blast
  with Cons.prems(3) have run: "sw_run (lg @ [(a, out)], rl1) cs = Inr (lg', rl')" by simp
  from Cons.prems(2) have le: "c \<le> op_time a" and srt: "sorted (op_time a # map op_time cs)"
    by simp_all
  have "sw_inv (op_time a) rl1"
    using Cons.prems(1) le st by (rule sw_inv_step)
  from Cons.IH [OF this srt run] show ?case by simp
qed

lemma sw_run_blocked:
  "sw_run (lg, rl) cs = Inr (lg', rl') \<Longrightarrow>
     blocked_requests rl' - int (rejected lg') = blocked_requests rl - int (rejected lg)"
proof (induction cs arbitrary: lg rl)
  case Nil
  then show ?case by simp
next
  case (Cons a cs)
  obtain out rl1 where st: "sw_step rl a = Inr (out, rl1)"
    using sw_step_total by blast
  with Cons.prems have "sw_run (lg @ [(a, out)], rl1) cs = Inr (lg', rl')" by simp
  from Cons.IH [OF this] sw_step_effect(6) [OF st] show ?case
    by (simp add: rejected_snoc)
qed

lemma sw_hist_init: "sw_init w n = Inr rl \<Longrightarrow> sw_hist c [] rl"
  by (auto simp: sw_init_def sw_hist_def accepted_def requests_of_def)

lemma sorted_start:
  "sorted (map op_time cs) \<Longrightarrow> sorted ((if cs = [] then 0 else op_time (hd cs)) # map op_time cs)"
  by (cases cs) auto

subsection \<open>Cleaning twice\<close>

lemma popleft_expired_empty_later:
  "popleft_expired b q = [] \<Longrightarrow> b \<le> b' \<Longrightarrow> popleft_expired b' q = []"
  using popleft_expired_twice [of b b' q] by simp

lemma cleanup_window_twice:
  "u \<le> s \<Longrightarrow> cleanup_window (cleanup_window rl k u) k s = cleanup_window rl k s"
  by (auto simp: cleanup_window_def Let_def popleft_expired_twice
        dest: popleft_expired_empty_later [where b' = "s - window_size rl"] split: option.splits)

lemma cleanup_window_idem:
  "cleanup_window (cleanup_window rl k s) k s = cleanup_window rl k s"
  by (simp add: cleanup_window_twice)

lemma cleanup_window_unchanged:
  "user_requests rl k = None \<or> (\<exists>x xs. user_requests rl k = Some (x # xs) \<and> t - window_size rl < x)
     \<Longrightarrow> cleanup_window rl k t = rl"
  by (auto simp: cleanup_window_def Let_def map_upd_triv)

lemma admits_cleanup:
  "u \<le> s \<Longrightarrow> admits (cleanup_window rl k u) k s = admits rl k s"
  by (simp add: admits_def cleanup_fields requests_of_cleanup popleft_expired_twice)

lemma repeat_can_send_fixed:
  "repeat_can_send m (cleanup_window rl k t) k t = cleanup_window rl k t"
  by (induction m) (simp_all add: can_send_eq cleanup_window_idem)

subsection \<open>Waiting time after a rejected call\<close>

lemma query_step_view:
  assumes "is_query a" and "op_time a \<le> s" and "sw_step rl a = Inr (out, rl')"
  shows "popleft_expired (s - window_size rl') (requests_of rl' k) =
         popleft_expired (s - window_size rl) (requests_of rl k)"
proof (cases "k = op_key a")
  case True
  from sw_step_effect(1,4) [OF assms(3)] assms(1,2) show ?thesis
    by (simp add: True popleft_expired_twice)
next
  case False
  then have "requests_of rl' k = requests_of rl k"
    by (intro requests_of_other sw_step_effect(3) [OF assms(3)])
  with sw_step_effect(1) [OF assms(3)] show ?thesis by simp
qed

lemma query_run_view:
  assumes "queries_upto s cs" and "sw_run (lg, rl) cs = Inr (lg', rl')"
  shows "popleft_expired (s - window_size rl') (requests_of rl' k) =
         popleft_expired (s - window_size rl) (requests_of rl k)"
  using assms
proof (induction cs arbitrary: lg rl)
  case Nil
  then show ?case by simp
next
  case (Cons a cs)
  obtain out rl1 where st: "sw_step rl a = Inr (out, rl1)"
    using sw_step_total by blast
  with Cons.prems(2) have run: "sw_run (lg @ [(a, out)], rl1) cs = Inr (lg', rl')" by simp
  from Cons.prems(1) have q: "is_query a" "op_time a \<le> s" "queries_upto s cs"
    by (simp_all add: queries_upto_def)
  have "popleft_expired (s - window_size rl') (requests_of rl' k) =
        popleft_expired (s - window_size rl1) (requests_of rl1 k)"
    using q(3) run by (rule Cons.IH)
  also have "\<dots> = popleft_expired (s - window_size rl) (requests_of rl k)"
    using q(1,2) st by (rule query_step_view)
  finally show ?case .
qed

lemma sw_wait_after_eq:
  assumes "queries_upto s cs"
  shows "sw_wait_after rl cs k s =
           Some (if admits rl k s then 0
                 else max 0 (hd (popleft_expired (s - window_size rl) (requests_of rl k))
                               + window_size rl - s))"
proof -
  obtain lg' rl' where run: "sw_run ([], rl) cs = Inr (lg', rl')"
    using sw_run_total by blast
  have v: "popleft_expired (s - window_size rl') (requests_of rl' k) =
         popleft_expired (s - window_size rl) (requests_of rl k)"
    using assms run by (rule query_run_view)
  from sw_run_config [OF run] have W: "window_size rl' = window_size rl"
    and N: "max_requests rl' = max_requests rl" by simp_all
  have a: "admits rl' k s = admits rl k s"
    unfolding admits_def v N ..
  have "sw_time_until_next_allowed rl' k s =
     Inr (if admits rl k s then 0
          else max 0 (hd (popleft_expired (s - window_size rl) (requests_of rl k))
                        + window_size rl - s),
          cleanup_window rl' k s)"
    unfolding time_until_eq a v unfolding W ..
  with run show ?thesis
    by (simp add: sw_wait_after_def)
qed

lemma failed_record_state:
  assumes "sw_record_message rl k t = (False, rl1)"
  shows "\<not> admits rl k t"
    and "requests_of rl1 k = popleft_expired (t - window_size rl) (requests_of rl k)"
    and "window_size rl1 = window_size rl" and "max_requests rl1 = max_requests rl"
    and "user_requests rl1 k = Some (popleft_expired (t - window_size rl) (requests_of rl k))"
  using assms
  by (auto simp: record_eq requests_of_blocked requests_of_cleanup cleanup_fields
        lookup_after_cleanup admits_def Let_def split: if_splits)

lemma sw_recovery:
  assumes fail: "sw_record_message rl k t = (False, rl1)"
    and cap: "int (length (requests_of rl k)) \<le> max 1 (max_requests rl)"
  shows "\<exists>ov q. user_requests rl1 k = Some (ov # q) \<and> t < ov + window_size rl \<and>
           (\<forall>cs s. t \<le> s \<and> queries_upto s cs \<longrightarrow>
              sw_wait_after rl1 cs k s = Some (max 0 (ov + window_size rl - s)))"
proof -
  let ?W = "window_size rl"
  let ?N = "max_requests rl"
  note f = failed_record_state [OF fail]
  define q1 where "q1 = popleft_expired (t - ?W) (requests_of rl k)"
  from f(1) have ne: "q1 \<noteq> []" and full: "\<not> int (length q1) < ?N"
    by (simp_all add: admits_def Let_def q1_def)
  then obtain ov q where q1: "q1 = ov # q" by (cases q1) auto
  have len: "int (length q1) \<le> max 1 ?N"
    using cap length_popleft_expired [of "t - ?W" "requests_of rl k"] by (simp add: q1_def)
  have ov: "t - ?W < ov"
    using q1 popleft_expired_head [of "t - ?W" "requests_of rl k" ov q] by (simp add: q1_def)
  have r1: "requests_of rl1 k = ov # q" using f(2) q1 by (simp add: q1_def)
  have wait: "sw_wait_after rl1 cs k s = Some (max 0 (ov + ?W - s))"
    if s: "t \<le> s" and qs: "queries_upto s cs" for cs s
  proof (cases "s - ?W < ov")
    case True
    then have "popleft_expired (s - ?W) (requests_of rl1 k) = ov # q"
      by (simp add: r1)
    with full q1 show ?thesis
      by (simp add: sw_wait_after_eq [OF qs] admits_def Let_def f(3,4))
  next
    case False
    then have "popleft_expired (s - ?W) (requests_of rl1 k) = popleft_expired (s - ?W) q"
      by (simp add: r1)
    moreover have "popleft_expired (s - ?W) q = [] \<or>
        int (length (popleft_expired (s - ?W) q)) < ?N"
      using len length_popleft_expired [of "s - ?W" q] by (cases "1 \<le> ?N") (auto simp: q1)
    ultimately have "admits rl1 k s"
      by (simp add: admits_def Let_def f(3,4))
    with False show ?thesis
      by (simp add: sw_wait_after_eq [OF qs])
  qed
  from f(5) q1 have "user_requests rl1 k = Some (ov # q)" by (simp add: q1_def)
  with ov wait show ?thesis by auto
qed

subsection \<open>No deque outgrows the limit\<close>

lemma sw_step_capacity:
  assumes "\<And>k. int (length (requests_of rl k)) \<le> max 1 (max_requests rl)"
    and st: "sw_step rl a = Inr (out, rl')"
  shows "int (length (requests_of rl' k)) \<le> max 1 (max_requests rl')"
proof (cases "k = op_key a")
  case False
  then have "requests_of rl' k = requests_of rl k"
    by (intro requests_of_other sw_step_effect(3) [OF st])
  with assms(1) [of k] sw_step_effect(2) [OF st] show ?thesis by simp
next
  case True
  let ?q = "popleft_expired (op_time a - window_size rl) (requests_of rl (op_key a))"
  have le: "int (length ?q) \<le> max 1 (max_requests rl)"
    using assms(1) [of "op_key a"]
      length_popleft_expired [of "op_time a - window_size rl" "requests_of rl (op_key a)"]
    by simp
  show ?thesis
  proof (cases "\<not> is_query a \<and> out = Allowed True")
    case False
    with sw_step_effect(2,4) [OF st] le show ?thesis by (simp add: True)
  next
    case new: True
    with sw_step_effect(5) [OF st] have "admits rl (op_key a) (op_time a)" by simp
    then have "?q = [] \<or> int (length ?q) < max_requests rl"
      by (simp add: admits_def Let_def)
    then have "int (length ?q) + 1 \<le> max 1 (max_requests rl)" by auto
    with sw_step_effect(2,4) [OF st] new show ?thesis by (simp add: True)
  qed
qed

lemma sw_run_capacity:
  assumes "\<And>k. int (length (requests_of rl k)) \<le> max 1 (max_requests rl)"
    and "sw_run (lg, rl) cs = Inr (lg', rl')"
  shows "int (length (requests_of rl' k)) \<le> max 1 (max_requests rl')"
  using assms
proof (induction cs arbitrary: lg rl)
  case Nil
  then show ?case by simp
next
  case (Cons a cs)
  obtain out rl1 where st: "sw_step rl a = Inr (out, rl1)"
    using sw_step_total by blast
  with Cons.prems(2) have run: "sw_run (lg @ [(a, out)], rl1) cs = Inr (lg', rl')" by simp
  have "int (length (requests_of rl1 k')) \<le> max 1 (max_requests rl1)" for k'
    using Cons.prems(1) st by (rule sw_step_capacity)
  then show ?case using run by (rule Cons.IH)
qed

lemma sw_capacity_reachable:
  assumes "sw_init w n = Inr rl0" and "sw_run ([], rl0) cs = Inr (lg, rl)"
  shows "int (length (requests_of rl k)) \<le> max 1 (max_requests rl)"
proof -
  from assms(1) have "requests_of rl0 k' = []" for k'
    by (auto simp: sw_init_def requests_of_def)
  then have "int (length (requests_of rl0 k')) \<le> max 1 (max_requests rl0)" for k'
    by simp
  then show ?thesis using assms(2) by (rule sw_run_capacity)
qed

subsection \<open>The interval limiter\<close>

lemma th_step_dom:
  "dom (user_last_message_time rl) \<subseteq> dom (user_last_message_time (snd (th_step rl a)))"
  by (cases a) (auto simp: th_can_send_message_def th_record_message_def th_time_until_next_allowed_def Let_def)

lemma th_run_dom:
  "dom (user_last_message_time rl) \<subseteq> dom (user_last_message_time (th_run rl cs))"
proof (induction cs arbitrary: rl)
  case Nil
  show ?case by simp
next
  case (Cons a cs)
  from th_step_dom [of rl a] Cons [of "snd (th_step rl a)"] show ?case by auto
qed

lemma th_query_step:
  "is_query a \<Longrightarrow> snd (th_step rl a) = rl"
  by (cases a) (simp_all add: th_can_send_message_def th_time_until_next_allowed_def Let_def)

lemma th_query_run:
  "list_all is_query cs \<Longrightarrow> th_run rl cs = rl"
  by (induction cs) (simp_all add: th_query_step)

lemma queries_upto_is_query: "queries_upto s cs \<Longrightarrow> list_all is_query cs"
  by (simp add: queries_upto_def list_all_iff)

lemma th_recovery:
  assumes "th_record_message trl k t = (False, trl1)"
  shows "trl1 = trl \<and> t < last_message_time trl k + min_interval trl \<and>
         (\<forall>cs s. queries_upto s cs \<longrightarrow>
            th_wait_after trl1 cs k s = max 0 (last_message_time trl k + min_interval trl - s))"
proof -
  from assms have 1: "trl1 = trl" and 2: "t < last_message_time trl k + min_interval trl"
    by (auto simp: th_record_message_def split: if_splits)
  have "th_wait_after trl cs k s = max 0 (last_message_time trl k + min_interval trl - s)"
    if "queries_upto s cs" for cs s
    using th_query_run [OF queries_upto_is_query [OF that], of trl]
    by (simp add: th_wait_after_def th_time_until_next_allowed_def Let_def algebra_simps)
  with 1 2 show ?thesis by simp
qed

section \<open>The claims\<close>

text \<open>
  C1. A fresh limiter with window \<open>w\<close> and \<open>max_requests = n\<close>, \<open>n\<close> at least 1, is
  driven by any script whose clock readings never decrease. The script runs to its end,
  and for every key and every instant \<open>t\<close>, the calls of \<^verbatim>\<open>record_message\<close> for that
  key that returned \<open>True\<close> at a time in the trailing window \<open>(t - w, t]\<close> number at
  most \<open>n\<close>.
\<close>

theorem C1_sliding_window_bound:
  assumes "1 \<le> n" and "sorted (map op_time cs)"
  shows "\<exists>rl0 lg rl. sw_init w n = Inr rl0 \<and> sw_run ([], rl0) cs = Inr (lg, rl) \<and>
           map fst lg = cs \<and>
           (\<forall>k t. int (length (filter (in_window w t) (accepted k lg))) \<le> n)"
proof -
  obtain rl0 where i: "sw_init w n = Inr rl0" and W: "window_size rl0 = w" and N: "max_requests rl0 = n"
    by (simp add: sw_init_def)
  obtain lg rl where run: "sw_run ([], rl0) cs = Inr (lg, rl)"
    using sw_run_total by blast
  let ?c = "if cs = [] then 0 else op_time (hd cs)"
  have "sw_hist (last (?c # map op_time cs)) lg rl"
    using sw_hist_init [OF i] sorted_start [OF assms(2)] run by (rule sw_run_hist)
  then have "int (length (filter (in_window (window_size rl) t) (accepted k lg))) \<le> max 1 (max_requests rl)" for k t
    unfolding sw_hist_def by blast
  moreover have "window_size rl = w" "max_requests rl = n"
    using sw_run_config [OF run] W N by simp_all
  ultimately have "int (length (filter (in_window w t) (accepted k lg))) \<le> n" for k t
    using assms(1) by (simp add: max_def)
  with i run sw_run_calls [OF run] show ?thesis by simp
qed

theorem C1_sliding_window_bound_witness:
  "(1::int) \<le> 1 \<and>
   sorted (map op_time [Record ''1'' 0, Record ''1'' 5, Record ''1'' 11]) \<and>
   (\<exists>rl0 lg rl. sw_init 10 1 = Inr rl0 \<and>
      sw_run ([], rl0) [Record ''1'' 0, Record ''1'' 5, Record ''1'' 11] = Inr (lg, rl) \<and>
      map fst lg = [Record ''1'' 0, Record ''1'' 5, Record ''1'' 11] \<and>
      (\<forall>k t. int (length (filter (in_window 10 t) (accepted k lg))) \<le> 1))"
proof -
  have h1: "(1::int) \<le> 1" by simp
  have h2: "sorted (map op_time [Record ''1'' 0, Record ''1'' 5, Record ''1'' 11])" by simp
  from C1_sliding_window_bound [OF h1 h2, of 10] h1 h2 show ?thesis by blast
qed

text \<open>
  C2, as stated, fails: neither constructor checks its arguments. A window of 0, a limit
  of 0, negative values and an interval of 0 are all accepted and stored.
\<close>

theorem C2_counterexample:
  "sw_init 0 1 = Inr \<lparr>window_size = 0, max_requests = 1, user_requests = Map.empty, blocked_requests = 0\<rparr> \<and>
   sw_init 10 0 = Inr \<lparr>window_size = 10, max_requests = 0, user_requests = Map.empty, blocked_requests = 0\<rparr> \<and>
   sw_init (- 1) (- 1) = Inr \<lparr>window_size = - 1, max_requests = - 1, user_requests = Map.empty, blocked_requests = 0\<rparr> \<and>
   th_init 0 = Inr \<lparr>min_interval = 0, user_last_message_time = Map.empty\<rparr> \<and>
   th_init (- 1) = Inr \<lparr>min_interval = - 1, user_last_message_time = Map.empty\<rparr>"
  by (simp add: sw_init_def th_init_def)

text \<open>
  C2, amended. Construction never fails: whatever \<^verbatim>\<open>window_size\<close>,
  \<^verbatim>\<open>max_requests\<close> and \<^verbatim>\<open>min_interval\<close> are given, positive or not, they are
  stored unchanged next to an empty dictionary (and a zero counter). No method of the
  sliding-window limiter raises, in any state, and so every script runs to its end. The
  methods of the interval limiter contain no operation that can raise (a dictionary
  lookup with a default, a subtraction, a comparison), which is why their model has no
  error side.
\<close>

theorem C2_construction_total:
  "sw_init w n = Inr \<lparr>window_size = w, max_requests = n, user_requests = Map.empty, blocked_requests = 0\<rparr> \<and>
   th_init m = Inr \<lparr>min_interval = m, user_last_message_time = Map.empty\<rparr> \<and>
   (\<exists>out rl'. sw_step rl a = Inr (out, rl')) \<and>
   (\<exists>lg' rl'. sw_run (lg, rl) cs = Inr (lg', rl'))"
  using sw_step_total [of rl a] sw_run_total [of lg rl cs]
  by (simp add: sw_init_def th_init_def)

theorem C2_construction_total_witness:
  "sw_init 10 1 = Inr sw_fresh \<and>
   th_init 10 = Inr \<lparr>min_interval = 10, user_last_message_time = Map.empty\<rparr> \<and>
   (\<exists>out rl'. sw_step sw_sent (TimeUntil ''1'' 5) = Inr (out, rl')) \<and>
   (\<exists>lg' rl'. sw_run ([], sw_sent) [Record ''1'' 5, TimeUntil ''1'' 5] = Inr (lg', rl'))"
  by (rule C2_construction_total)

text \<open>
  C3. In every state, \<^verbatim>\<open>time_until_next_allowed\<close> returns without raising, leaves the
  limiter as the cleanup for that key leaves it (which is also the state
  \<^verbatim>\<open>can_send_message\<close> leaves), and its value is never negative: it is 0 when
  \<^verbatim>\<open>can_send_message\<close> would answer \<open>True\<close> at that moment, and otherwise
  \<open>max 0 (oldest + window_size - now)\<close> for the oldest timestamp left in the deque.
\<close>

theorem C3_time_until_next_allowed:
  "\<exists>wt. sw_time_until_next_allowed rl k now = Inr (wt, cleanup_window rl k now) \<and>
        snd (sw_can_send_message rl k now) = cleanup_window rl k now \<and>
        0 \<le> wt \<and>
        (if fst (sw_can_send_message rl k now) then wt = 0
         else \<exists>ov q. user_requests (cleanup_window rl k now) k = Some (ov # q) \<and>
                wt = max 0 (ov + window_size rl - now))"
proof (cases "admits rl k now")
  case True
  then show ?thesis by (simp add: time_until_eq can_send_eq)
next
  case False
  then obtain ov q where q: "popleft_expired (now - window_size rl) (requests_of rl k) = ov # q"
    by (cases "popleft_expired (now - window_size rl) (requests_of rl k)") (auto simp: admits_def Let_def)
  then have "user_requests (cleanup_window rl k now) k = Some (ov # q)"
    by (simp add: lookup_after_cleanup)
  with False q show ?thesis by (simp add: time_until_eq can_send_eq)
qed

theorem C3_time_until_next_allowed_witness:
  "sw_time_until_next_allowed sw_sent ''1'' 5 = Inr (5, sw_sent) \<and>
   sw_time_until_next_allowed sw_sent ''1'' 10 = Inr (0, sw_fresh)"
proof -
  have c5: "cleanup_window sw_sent ''1'' 5 = sw_sent"
    and c10: "cleanup_window sw_sent ''1'' 10 = sw_fresh"
    by (simp_all add: cleanup_window_def)
  have a5: "\<not> fst (sw_can_send_message sw_sent ''1'' 5)"
    and a10: "fst (sw_can_send_message sw_sent ''1'' 10)"
    by (simp_all add: sw_can_send_message_def cleanup_window_def)
  from C3_time_until_next_allowed [of sw_sent "''1''" 5] a5
  have "sw_time_until_next_allowed sw_sent ''1'' 5 = Inr (5, sw_sent)"
    by (auto simp: c5)
  moreover from C3_time_until_next_allowed [of sw_sent "''1''" 10] a10
  have "sw_time_until_next_allowed sw_sent ''1'' 10 = Inr (0, sw_fresh)"
    by (auto simp: c10)
  ultimately show ?thesis by simp
qed

text \<open>
  C4. \<^verbatim>\<open>can_send_message\<close> of the interval limiter answers \<open>True\<close> exactly when
  \<open>now - last \<ge> min_interval\<close>, with \<open>last = 0\<close> for a key that has no entry; at
  \<open>now = last + min_interval\<close> the answer is \<open>True\<close>; and \<^verbatim>\<open>record_message\<close>
  returns the same answer.
\<close>

theorem C4_interval_admission:
  "(fst (th_can_send_message rl k now) \<longleftrightarrow>
      now - (case user_last_message_time rl k of None \<Rightarrow> 0 | Some t \<Rightarrow> t) \<ge> min_interval rl) \<and>
   fst (th_can_send_message rl k
      ((case user_last_message_time rl k of None \<Rightarrow> 0 | Some t \<Rightarrow> t) + min_interval rl)) \<and>
   fst (th_record_message rl k now) = fst (th_can_send_message rl k now)"
  by (simp add: th_can_send_message_def th_record_message_def last_message_time_def)

theorem C4_interval_admission_witness:
  "\<not> fst (th_can_send_message th_sent ''A'' (1099 / 10)) \<and>
   fst (th_can_send_message th_sent ''A'' 110) \<and>
   fst (th_record_message th_sent ''A'' 110) \<and>
   \<not> fst (th_can_send_message \<lparr>min_interval = 10, user_last_message_time = Map.empty\<rparr> ''A'' 0)"
  using C4_interval_admission [of th_sent "''A''" "1099 / 10"]
    C4_interval_admission [of th_sent "''A''" 110]
    C4_interval_admission [of "\<lparr>min_interval = 10, user_last_message_time = Map.empty\<rparr>" "''A''" 0]
  by simp

text \<open>
  C5. A fresh limiter starts with \<^verbatim>\<open>blocked_requests = 0\<close>; after any script (any keys,
  any clock readings) the counter equals the number of \<^verbatim>\<open>record_message\<close> calls in
  the log that returned \<open>False\<close>. In any state, a call adds 1 to the counter when it is
  a rejected \<^verbatim>\<open>record_message\<close> and leaves it alone otherwise, so the counter never
  decreases.
\<close>

theorem C5_blocked_counter:
  "(\<exists>rl0 lg rl1. sw_init w n = Inr rl0 \<and> blocked_requests rl0 = 0 \<and>
       sw_run ([], rl0) cs = Inr (lg, rl1) \<and> map fst lg = cs \<and>
       blocked_requests rl1 = int (rejected lg)) \<and>
   (\<exists>out rl'. sw_step rl a = Inr (out, rl') \<and>
       blocked_requests rl' =
         blocked_requests rl + (if \<not> is_query a \<and> out = Allowed False then 1 else 0) \<and>
       blocked_requests rl \<le> blocked_requests rl')"
proof
  obtain rl0 where i: "sw_init w n = Inr rl0" and b: "blocked_requests rl0 = 0"
    by (simp add: sw_init_def)
  obtain lg rl1 where run: "sw_run ([], rl0) cs = Inr (lg, rl1)"
    using sw_run_total by blast
  from sw_run_blocked [OF run] b have "blocked_requests rl1 = int (rejected lg)"
    by (simp add: rejected_def)
  with i b run sw_run_calls [OF run]
  show "\<exists>rl0 lg rl1. sw_init w n = Inr rl0 \<and> blocked_requests rl0 = 0 \<and>
       sw_run ([], rl0) cs = Inr (lg, rl1) \<and> map fst lg = cs \<and>
       blocked_requests rl1 = int (rejected lg)"
    by simp
next
  obtain out rl' where st: "sw_step rl a = Inr (out, rl')"
    using sw_step_total by blast
  from sw_step_effect(6) [OF st] st
  show "\<exists>out rl'. sw_step rl a = Inr (out, rl') \<and>
       blocked_requests rl' =
         blocked_requests rl + (if \<not> is_query a \<and> out = Allowed False then 1 else 0) \<and>
       blocked_requests rl \<le> blocked_requests rl'"
    by simp
qed

theorem C5_blocked_counter_witness:
  "(\<exists>rl0 lg rl1. sw_init 10 1 = Inr rl0 \<and> blocked_requests rl0 = 0 \<and>
       sw_run ([], rl0) [Record ''1'' 0, Record ''1'' 5, Record ''2'' 6, Record ''1'' 7] = Inr (lg, rl1) \<and>
       map fst lg = [Record ''1'' 0, Record ''1'' 5, Record ''2'' 6, Record ''1'' 7] \<and>
       blocked_requests rl1 = int (rejected lg)) \<and>
   (\<exists>out rl'. sw_step sw_sent (Record ''1'' 5) = Inr (out, rl') \<and>
       blocked_requests rl' =
         blocked_requests sw_sent +
           (if \<not> is_query (Record ''1'' 5) \<and> out = Allowed False then 1 else 0) \<and>
       blocked_requests sw_sent \<le> blocked_requests rl')"
  by (rule C5_blocked_counter)

text \<open>
  C6, as stated, fails for the sliding window: \<^verbatim>\<open>can_send_message\<close> runs the
  cleanup. After \<^verbatim>\<open>record_message("1")\<close> at time 0 (window 10) the deque of "1" is
  \<open>[0]\<close>; one \<^verbatim>\<open>can_send_message("1", 20)\<close> later the key is gone.
\<close>

theorem C6_counterexample:
  "user_requests
     (snd (sw_record_message
        \<lparr>window_size = 10, max_requests = 1, user_requests = Map.empty, blocked_requests = 0\<rparr>
        ''1'' 0)) ''1'' = Some [0] \<and>
   user_requests
     (snd (sw_can_send_message
        (snd (sw_record_message
           \<lparr>window_size = 10, max_requests = 1, user_requests = Map.empty, blocked_requests = 0\<rparr>
           ''1'' 0)) ''1'' 20)) ''1'' = None"
  by (simp add: sw_record_message_def sw_can_send_message_def cleanup_window_def Let_def)

text \<open>
  C6, amended. \<^verbatim>\<open>can_send_message(k, now)\<close> of the sliding-window limiter never
  changes the blocked counter, the configuration or another key's deque; of the key's own
  deque it removes only the expired head (timestamps \<open>\<le> now - window_size\<close>), and
  nothing at all when the key is absent or its oldest timestamp has not expired.
  Any number of further calls at the same clock reading return the same answer and leave
  the state as the first call left it, and an earlier call (at \<open>u \<le> now\<close>) changes
  neither the answer nor the state of a later one. \<^verbatim>\<open>can_send_message\<close> of the interval
  limiter changes nothing.
\<close>

theorem C6_can_send_only_cleans:
  assumes "sw_can_send_message rl k now = (b, rl1)"
  shows "blocked_requests rl1 = blocked_requests rl \<and>
         window_size rl1 = window_size rl \<and> max_requests rl1 = max_requests rl \<and>
         (\<forall>k'. k' \<noteq> k \<longrightarrow> user_requests rl1 k' = user_requests rl k') \<and>
         requests_of rl1 k = popleft_expired (now - window_size rl) (requests_of rl k) \<and>
         (user_requests rl k = None \<or>
          (\<exists>x xs. user_requests rl k = Some (x # xs) \<and> now - window_size rl < x)
            \<longrightarrow> rl1 = rl) \<and>
         repeat_can_send (Suc m) rl k now = rl1 \<and>
         sw_can_send_message (repeat_can_send (Suc m) rl k now) k now = (b, rl1) \<and>
         (\<forall>u. u \<le> now \<longrightarrow>
            sw_can_send_message (snd (sw_can_send_message rl k u)) k now = (b, rl1)) \<and>
         th_can_send_message trl k' t' = (fst (th_can_send_message trl k' t'), trl)"
proof -
  from assms have b: "b = admits rl k now" and rl1: "rl1 = cleanup_window rl k now"
    by (simp_all add: can_send_eq)
  have "user_requests rl k = None \<or>
          (\<exists>x xs. user_requests rl k = Some (x # xs) \<and> now - window_size rl < x)
            \<longrightarrow> rl1 = rl"
    unfolding rl1 using cleanup_window_unchanged [of rl k now] by blast
  moreover have "repeat_can_send (Suc m) rl k now = rl1"
    by (simp add: can_send_eq rl1 repeat_can_send_fixed)
  moreover have "sw_can_send_message rl1 k now = (b, rl1)"
    by (simp add: can_send_eq rl1 b cleanup_window_idem admits_cleanup)
  moreover have "\<forall>u. u \<le> now \<longrightarrow>
            sw_can_send_message (snd (sw_can_send_message rl k u)) k now = (b, rl1)"
    by (simp add: can_send_eq rl1 b cleanup_window_twice admits_cleanup)
  moreover have "th_can_send_message trl k' t' = (fst (th_can_send_message trl k' t'), trl)"
    by (simp add: th_can_send_message_def)
  moreover have "blocked_requests rl1 = blocked_requests rl \<and>
         window_size rl1 = window_size rl \<and> max_requests rl1 = max_requests rl \<and>
         (\<forall>k'. k' \<noteq> k \<longrightarrow> user_requests rl1 k' = user_requests rl k') \<and>
         requests_of rl1 k = popleft_expired (now - window_size rl) (requests_of rl k)"
    by (simp add: rl1 cleanup_fields cleanup_other requests_of_cleanup)
  ultimately show ?thesis by simp
qed

theorem C6_can_send_only_cleans_witness:
  "sw_can_send_message sw_sent ''1'' 20 = (True, sw_fresh) \<and>
   blocked_requests sw_fresh = blocked_requests sw_sent \<and>
   requests_of sw_fresh ''1'' = popleft_expired (20 - window_size sw_sent) (requests_of sw_sent ''1'') \<and>
   repeat_can_send (Suc 2) sw_sent ''1'' 20 = sw_fresh \<and>
   sw_can_send_message (repeat_can_send (Suc 2) sw_sent ''1'' 20) ''1'' 20 = (True, sw_fresh) \<and>
   sw_can_send_message (snd (sw_can_send_message sw_sent ''1'' 5)) ''1'' 20 = (True, sw_fresh)"
proof -
  have h: "sw_can_send_message sw_sent ''1'' 20 = (True, sw_fresh)"
    by (simp add: sw_can_send_message_def cleanup_window_def)
  note T = C6_can_send_only_cleans [OF h, of 2 th_sent "''A''" 0]
  from T have 1: "blocked_requests sw_fresh = blocked_requests sw_sent" by (elim conjE) assumption
  from T have 2: "requests_of sw_fresh ''1'' =
      popleft_expired (20 - window_size sw_sent) (requests_of sw_sent ''1'')" by (elim conjE) assumption
  from T have 3: "repeat_can_send (Suc 2) sw_sent ''1'' 20 = sw_fresh" by (elim conjE) assumption
  from T have 4: "sw_can_send_message (repeat_can_send (Suc 2) sw_sent ''1'' 20) ''1'' 20 =
      (True, sw_fresh)" by (elim conjE) assumption
  from T have "\<forall>u. u \<le> 20 \<longrightarrow>
      sw_can_send_message (snd (sw_can_send_message sw_sent ''1'' u)) ''1'' 20 = (True, sw_fresh)"
    by (elim conjE) assumption
  then have 5: "sw_can_send_message (snd (sw_can_send_message sw_sent ''1'' 5)) ''1'' 20 =
      (True, sw_fresh)" by simp
  from h 1 2 3 4 5 show ?thesis by (intro conjI)
qed

text \<open>
  C7, as stated, fails: the waiting time does not run down to \<open>t + window_size\<close> (or
  \<open>t + min_interval\<close>), where \<open>t\<close> is the time of the rejected call. With window 10 and
  limit 1, a message accepted at 0 and one rejected at 5, the waiting time is already 0 at
  10 and still 0 at 12, both before 15. With interval 10, last message at 100 and a
  rejection at 105, it is 0 at 110 and at 112, both before 115.
\<close>

theorem C7_counterexample:
  "fst (sw_record_message
      \<lparr>window_size = 10, max_requests = 1, user_requests = [''1'' \<mapsto> [0]], blocked_requests = 0\<rparr>
      ''1'' 5) = False \<and>
   sw_wait_after
     (snd (sw_record_message
        \<lparr>window_size = 10, max_requests = 1, user_requests = [''1'' \<mapsto> [0]], blocked_requests = 0\<rparr>
        ''1'' 5)) [] ''1'' 10 = Some 0 \<and>
   sw_wait_after
     (snd (sw_record_message
        \<lparr>window_size = 10, max_requests = 1, user_requests = [''1'' \<mapsto> [0]], blocked_requests = 0\<rparr>
        ''1'' 5)) [] ''1'' 12 = Some 0 \<and>
   fst (th_record_message
      \<lparr>min_interval = 10, user_last_message_time = [''A'' \<mapsto> 100]\<rparr> ''A'' 105) = False \<and>
   th_wait_after
     (snd (th_record_message
        \<lparr>min_interval = 10, user_last_message_time = [''A'' \<mapsto> 100]\<rparr> ''A'' 105))
     [] ''A'' 110 = 0 \<and>
   th_wait_after
     (snd (th_record_message
        \<lparr>min_interval = 10, user_last_message_time = [''A'' \<mapsto> 100]\<rparr> ''A'' 105))
     [] ''A'' 112 = 0 \<and>
   (5::real) \<le> 10 \<and> (10::real) < 12 \<and> (12::real) < 5 + 10 \<and>
   (105::real) \<le> 110 \<and> (110::real) < 112 \<and> (112::real) < 105 + 10"
  by (simp add: sw_record_message_def sw_can_send_message_def cleanup_window_def Let_def
        sw_wait_after_def sw_time_until_next_allowed_def
        th_record_message_def th_wait_after_def th_time_until_next_allowed_def last_message_time_def)

text \<open>
  C7, amended. Let \<^verbatim>\<open>record_message(k)\<close> be rejected at time \<open>t\<close>, in a state where the
  deque of \<open>k\<close> is no longer than \<open>max 1 max_requests\<close> (true of every state a fresh
  limiter can reach, lemma \<open>sw_capacity_reachable\<close>). Then the key has
  an oldest timestamp \<open>ov\<close> left, the boundary \<open>ov + window_size\<close> lies after \<open>t\<close>, and as
  long as no \<^verbatim>\<open>record_message\<close> is called, \<^verbatim>\<open>time_until_next_allowed(k)\<close> at any
  time \<open>s \<ge> t\<close> returns \<open>max 0 (ov + window_size - s)\<close>, whatever other queries were
  made before: it strictly decreases up to the boundary, is 0 there and stays 0.
  For the interval limiter the same holds with the boundary
  \<open>last_message_time + min_interval\<close>.
\<close>

theorem C7_recovery:
  "(sw_record_message rl k t = (False, rl1) \<and>
    int (length (requests_of rl k)) \<le> max 1 (max_requests rl) \<longrightarrow>
      (\<exists>ov q. user_requests rl1 k = Some (ov # q) \<and> t < ov + window_size rl \<and>
         (\<forall>cs s. t \<le> s \<and> queries_upto s cs \<longrightarrow>
            sw_wait_after rl1 cs k s = Some (max 0 (ov + window_size rl - s))) \<and>
         (\<forall>cs s cs' s'. t \<le> s \<and> s < s' \<and> s' \<le> ov + window_size rl \<and>
              queries_upto s cs \<and> queries_upto s' cs' \<longrightarrow>
            (\<exists>x y. sw_wait_after rl1 cs k s = Some x \<and>
                   sw_wait_after rl1 cs' k s' = Some y \<and> y < x)) \<and>
         (\<forall>cs s. ov + window_size rl \<le> s \<and> queries_upto s cs \<longrightarrow>
            sw_wait_after rl1 cs k s = Some 0))) \<and>
   (th_record_message trl k' t' = (False, trl1) \<longrightarrow>
      trl1 = trl \<and> t' < last_message_time trl k' + min_interval trl \<and>
      (\<forall>cs s. queries_upto s cs \<longrightarrow>
         th_wait_after trl1 cs k' s = max 0 (last_message_time trl k' + min_interval trl - s)) \<and>
      (\<forall>cs s cs' s'. s < s' \<and> s' \<le> last_message_time trl k' + min_interval trl \<and>
           queries_upto s cs \<and> queries_upto s' cs' \<longrightarrow>
         th_wait_after trl1 cs' k' s' < th_wait_after trl1 cs k' s) \<and>
      (\<forall>cs s. last_message_time trl k' + min_interval trl \<le> s \<and> queries_upto s cs \<longrightarrow>
         th_wait_after trl1 cs k' s = 0))"
proof (intro conjI impI)
  assume "sw_record_message rl k t = (False, rl1) \<and>
    int (length (requests_of rl k)) \<le> max 1 (max_requests rl)"
  then obtain ov q where 1: "user_requests rl1 k = Some (ov # q)" and 2: "t < ov + window_size rl"
    and 3: "\<And>cs s. t \<le> s \<Longrightarrow> queries_upto s cs \<Longrightarrow>
            sw_wait_after rl1 cs k s = Some (max 0 (ov + window_size rl - s))"
    using sw_recovery [of rl k t rl1] by blast
  have 4: "\<exists>x y. sw_wait_after rl1 cs k s = Some x \<and> sw_wait_after rl1 cs' k s' = Some y \<and> y < x"
    if "t \<le> s" "s < s'" "s' \<le> ov + window_size rl" "queries_upto s cs" "queries_upto s' cs'"
    for cs s cs' s'
    using 3 [of s cs] 3 [of s' cs'] that by simp
  have 5: "sw_wait_after rl1 cs k s = Some 0"
    if "ov + window_size rl \<le> s" "queries_upto s cs" for cs s
    using 3 [of s cs] 2 that by simp
  from 1 2 3 4 5
  show "\<exists>ov q. user_requests rl1 k = Some (ov # q) \<and> t < ov + window_size rl \<and>
         (\<forall>cs s. t \<le> s \<and> queries_upto s cs \<longrightarrow>
            sw_wait_after rl1 cs k s = Some (max 0 (ov + window_size rl - s))) \<and>
         (\<forall>cs s cs' s'. t \<le> s \<and> s < s' \<and> s' \<le> ov + window_size rl \<and>
              queries_upto s cs \<and> queries_upto s' cs' \<longrightarrow>
            (\<exists>x y. sw_wait_after rl1 cs k s = Some x \<and>
                   sw_wait_after rl1 cs' k s' = Some y \<and> y < x)) \<and>
         (\<forall>cs s. ov + window_size rl \<le> s \<and> queries_upto s cs \<longrightarrow>
            sw_wait_after rl1 cs k s = Some 0)"
    by blast
next
  assume f: "th_record_message trl k' t' = (False, trl1)"
  from th_recovery [OF f] have e: "trl1 = trl"
    and b: "t' < last_message_time trl k' + min_interval trl"
    and w: "\<And>cs s. queries_upto s cs \<Longrightarrow>
         th_wait_after trl1 cs k' s = max 0 (last_message_time trl k' + min_interval trl - s)"
    by blast+
  show "trl1 = trl" by (rule e)
  show "t' < last_message_time trl k' + min_interval trl" by (rule b)
  show "\<forall>cs s. queries_upto s cs \<longrightarrow>
         th_wait_after trl1 cs k' s = max 0 (last_message_time trl k' + min_interval trl - s)"
    using w by blast
  show "\<forall>cs s cs' s'. s < s' \<and> s' \<le> last_message_time trl k' + min_interval trl \<and>
           queries_upto s cs \<and> queries_upto s' cs' \<longrightarrow>
         th_wait_after trl1 cs' k' s' < th_wait_after trl1 cs k' s"
  proof (intro allI impI)
    fix cs s cs' s'
    assume a: "s < s' \<and> s' \<le> last_message_time trl k' + min_interval trl \<and>
           queries_upto s cs \<and> queries_upto s' cs'"
    then have "th_wait_after trl1 cs k' s = max 0 (last_message_time trl k' + min_interval trl - s)"
      and "th_wait_after trl1 cs' k' s' = max 0 (last_message_time trl k' + min_interval trl - s')"
      using w by blast+
    with a show "th_wait_after trl1 cs' k' s' < th_wait_after trl1 cs k' s" by simp
  qed
  show "\<forall>cs s. last_message_time trl k' + min_interval trl \<le> s \<and> queries_upto s cs \<longrightarrow>
         th_wait_after trl1 cs k' s = 0"
  proof (intro allI impI)
    fix cs s
    assume a: "last_message_time trl k' + min_interval trl \<le> s \<and> queries_upto s cs"
    then have "th_wait_after trl1 cs k' s = max 0 (last_message_time trl k' + min_interval trl - s)"
      using w by blast
    with a show "th_wait_after trl1 cs k' s = 0" by simp
  qed
qed

theorem C7_recovery_witness:
  "sw_record_message sw_sent ''1'' 5 = (False, sw_blocked) \<and>
   int (length (requests_of sw_sent ''1'')) \<le> max 1 (max_requests sw_sent) \<and>
   th_record_message th_sent ''A'' 105 = (False, th_sent) \<and>
   sw_wait_after sw_blocked [TimeUntil ''1'' 6] ''1'' 7 = Some 3 \<and>
   sw_wait_after sw_blocked [] ''1'' 10 = Some 0 \<and>
   th_wait_after th_sent [CanSend ''A'' 106] ''A'' 107 = 3 \<and>
   th_wait_after th_sent [] ''A'' 110 = 0"
proof -
  have h1: "sw_record_message sw_sent ''1'' 5 = (False, sw_blocked) \<and>
      int (length (requests_of sw_sent ''1'')) \<le> max 1 (max_requests sw_sent)"
    by (simp add: sw_record_message_def sw_can_send_message_def cleanup_window_def requests_of_def)
  have h2: "th_record_message th_sent ''A'' 105 = (False, th_sent)"
    by (simp add: th_record_message_def last_message_time_def)
  have q: "queries_upto 7 [TimeUntil ''1'' 6]" "queries_upto 10 []"
    "queries_upto 107 [CanSend ''A'' 106]" "queries_upto 110 []"
    by (simp_all add: queries_upto_def)
  note T = C7_recovery [of sw_sent "''1''" 5 sw_blocked th_sent "''A''" 105 th_sent]
  from T [THEN conjunct1, THEN mp, OF h1]
  obtain ov q' where ov: "user_requests sw_blocked ''1'' = Some (ov # q')"
    and w: "\<forall>cs s. 5 \<le> s \<and> queries_upto s cs \<longrightarrow>
               sw_wait_after sw_blocked cs ''1'' s = Some (max 0 (ov + window_size sw_sent - s))"
    by blast
  from ov have "ov = 0" by simp
  with w [rule_format, of 7 "[TimeUntil ''1'' 6]"] w [rule_format, of 10 "[]"] q
  have s: "sw_wait_after sw_blocked [TimeUntil ''1'' 6] ''1'' 7 = Some 3"
    "sw_wait_after sw_blocked [] ''1'' 10 = Some 0"
    by simp_all
  from T [THEN conjunct2, THEN mp, OF h2]
  have "\<forall>cs s. queries_upto s cs \<longrightarrow>
      th_wait_after th_sent cs ''A'' s = max 0 (last_message_time th_sent ''A'' + min_interval th_sent - s)"
    by (elim conjE) assumption
  from this [rule_format, of 107 "[CanSend ''A'' 106]"] this [rule_format, of 110 "[]"] q
  have t: "th_wait_after th_sent [CanSend ''A'' 106] ''A'' 107 = 3"
    "th_wait_after th_sent [] ''A'' 110 = 0"
    by (simp_all add: last_message_time_def)
  from h1 h2 s t show ?thesis by simp
qed

text \<open>
  C8. On an ascending deque the cleanup at \<open>now\<close> keeps exactly the timestamps later than
  \<open>now - window_size\<close>; a timestamp equal to \<open>now - window_size\<close> is removed, and
  \<^verbatim>\<open>can_send_message\<close> counts only what is left. At the head of any deque, such a
  timestamp is popped.
\<close>

theorem C8_expiry_inclusive:
  assumes "user_requests rl k = Some q" and "sorted q"
  shows "requests_of (cleanup_window rl k now) k = filter (\<lambda>x. now - window_size rl < x) q \<and>
         now - window_size rl \<notin> set (requests_of (cleanup_window rl k now) k) \<and>
         (fst (sw_can_send_message rl k now) \<longleftrightarrow>
            filter (\<lambda>x. now - window_size rl < x) q = [] \<or>
            int (length (filter (\<lambda>x. now - window_size rl < x) q)) < max_requests rl) \<and>
         popleft_expired (now - window_size rl) ((now - window_size rl) # ts) =
            popleft_expired (now - window_size rl) ts"
proof -
  from assms(1) have r: "requests_of rl k = q" by (simp add: requests_of_def)
  have p: "popleft_expired (now - window_size rl) q = filter (\<lambda>x. now - window_size rl < x) q"
    using assms(2) by (rule popleft_expired_sorted_filter)
  show ?thesis
    by (simp add: requests_of_cleanup r p can_send_eq admits_def Let_def)
qed

theorem C8_expiry_inclusive_witness:
  "user_requests sw_sent ''1'' = Some [0] \<and> sorted [0::real] \<and>
   requests_of (cleanup_window sw_sent ''1'' 10) ''1'' = [] \<and>
   10 - window_size sw_sent \<notin> set (requests_of (cleanup_window sw_sent ''1'' 10) ''1'') \<and>
   fst (sw_can_send_message sw_sent ''1'' 10)"
proof -
  have h1: "user_requests sw_sent ''1'' = Some [0]" by simp
  have h2: "sorted [0::real]" by simp
  from C8_expiry_inclusive [OF h1 h2, of 10] h1 h2 show ?thesis by simp
qed

text \<open>
  C9. A fresh limiter satisfies the invariant (every deque in the dictionary is non-empty,
  ascending and holds nothing later than the clock). A call made at a clock reading not
  earlier than the last one returns and keeps the invariant; right after the cleanup that
  opens the call, every timestamp of the key lies within the window, later than
  \<open>now - window_size\<close> and not later than \<open>now\<close>; and a key whose deque the cleanup
  empties is no longer in the dictionary.
\<close>

theorem C9_state_invariant:
  assumes "sw_inv c rl" and "c \<le> op_time a"
  shows "(\<exists>rl0. sw_init w n = Inr rl0 \<and> sw_inv c0 rl0) \<and>
         (\<exists>out rl'. sw_step rl a = Inr (out, rl') \<and> sw_inv (op_time a) rl') \<and>
         sw_inv (op_time a) (cleanup_window rl (op_key a) (op_time a)) \<and>
         (\<forall>q. user_requests (cleanup_window rl (op_key a) (op_time a)) (op_key a) = Some q \<longrightarrow>
              (\<forall>x\<in>set q. op_time a - window_size rl < x \<and> x \<le> op_time a)) \<and>
         (popleft_expired (op_time a - window_size rl) (requests_of rl (op_key a)) = [] \<longrightarrow>
              user_requests (cleanup_window rl (op_key a) (op_time a)) (op_key a) = None)"
proof -
  have "\<exists>rl0. sw_init w n = Inr rl0 \<and> sw_inv c0 rl0"
    using sw_inv_init [of w n _ c0] by (simp add: sw_init_def)
  moreover obtain out rl' where st: "sw_step rl a = Inr (out, rl')"
    using sw_step_total by blast
  moreover have "sw_inv (op_time a) rl'"
    using assms st by (rule sw_inv_step)
  moreover have "sw_inv (op_time a) (cleanup_window rl (op_key a) (op_time a))"
    using assms by (rule sw_inv_cleanup_window)
  moreover have "\<forall>q. user_requests (cleanup_window rl (op_key a) (op_time a)) (op_key a) = Some q \<longrightarrow>
              (\<forall>x\<in>set q. op_time a - window_size rl < x \<and> x \<le> op_time a)"
    using cleanup_window_bounds [OF assms] by blast
  moreover have "popleft_expired (op_time a - window_size rl) (requests_of rl (op_key a)) = [] \<longrightarrow>
              user_requests (cleanup_window rl (op_key a) (op_time a)) (op_key a) = None"
    by (simp add: absent_after_cleanup)
  ultimately show ?thesis by blast
qed

theorem C9_state_invariant_witness:
  "sw_inv 0 sw_sent \<and> (0::real) \<le> op_time (Record ''1'' 5) \<and>
   (\<exists>rl0. sw_init 10 1 = Inr rl0 \<and> sw_inv 0 rl0) \<and>
   (\<exists>out rl'. sw_step sw_sent (Record ''1'' 5) = Inr (out, rl') \<and>
       sw_inv (op_time (Record ''1'' 5)) rl') \<and>
   sw_inv (op_time (Record ''1'' 5))
     (cleanup_window sw_sent (op_key (Record ''1'' 5)) (op_time (Record ''1'' 5)))"
proof -
  have h1: "sw_inv 0 sw_sent" by (simp add: sw_inv_def)
  have h2: "(0::real) \<le> op_time (Record ''1'' 5)" by simp
  from C9_state_invariant [OF h1 h2, of 10 1 0] h1 h2 show ?thesis by blast
qed

text \<open>
  C10. In the interval limiter \<^verbatim>\<open>can_send_message\<close> and
  \<^verbatim>\<open>time_until_next_allowed\<close> leave the state as it is, an accepted
  \<^verbatim>\<open>record_message\<close> overwrites the key's entry with the current time, a rejected one
  changes nothing, and over any script the set of keys only grows: an entry that exists
  is never removed.
\<close>

theorem C10_interval_keys_grow:
  "snd (th_can_send_message rl k t) = rl \<and>
   snd (th_time_until_next_allowed rl k t) = rl \<and>
   user_last_message_time (snd (th_record_message rl k t)) =
     (if fst (th_record_message rl k t) then (user_last_message_time rl)(k \<mapsto> t)
      else user_last_message_time rl) \<and>
   min_interval (snd (th_record_message rl k t)) = min_interval rl \<and>
   dom (user_last_message_time rl) \<subseteq> dom (user_last_message_time (th_run rl cs)) \<and>
   (user_last_message_time rl k' \<noteq> None \<longrightarrow> user_last_message_time (th_run rl cs) k' \<noteq> None)"
  using th_run_dom [of rl cs]
  by (auto simp: th_can_send_message_def th_record_message_def th_time_until_next_allowed_def Let_def)

theorem C10_interval_keys_grow_witness:
  "user_last_message_time th_sent ''A'' \<noteq> None \<and>
   user_last_message_time
     (th_run th_sent [Record ''A'' 200, CanSend ''B'' 201, Record ''B'' 202]) ''A'' \<noteq> None \<and>
   dom (user_last_message_time th_sent) \<subseteq>
     dom (user_last_message_time
            (th_run th_sent [Record ''A'' 200, CanSend ''B'' 201, Record ''B'' 202]))"
proof -
  have h: "user_last_message_time th_sent ''A'' \<noteq> None" by simp
  from C10_interval_keys_grow
    [of th_sent "''A''" 0 "[Record ''A'' 200, CanSend ''B'' 201, Record ''B'' 202]" "''A''"] h
  show ?thesis by blast
qed

end
